theory Spec2Isabelle
  imports Main "HOL-Library.Word"
begin

unbundle bit_operations_syntax

section \<open>The machine model\<close>

text \<open>
  The header \<^verbatim>\<open>libc/src/__support/CPP/bit.h\<close> is a set of function templates over an
  unsigned integer type \<open>T\<close>. A value of \<open>T\<close> is a word \<open>'a word\<close>, whose length
  \<open>LENGTH('a)\<close> is the number of value bits of \<open>T\<close>. The C++ types \<open>int\<close> and
  \<open>unsigned\<close> are 32 bits wide: an \<open>int\<close> is a \<open>32 word\<close> read with \<open>sint\<close>, an
  \<open>unsigned\<close> is a \<open>32 word\<close> read with \<open>unat\<close>, and the conversion between the two
  keeps the bits. Counters that the code keeps in an \<open>unsigned\<close> and that never leave
  the range from 0 to the bit width (\<open>shift\<close>, \<open>zero_bits\<close>) are natural numbers; the
  \<open>int\<close> results of the counting functions are integers.
\<close>

type_synonym c_int = "32 word"
type_synonym c_unsigned = "32 word"

text \<open>
  Operations whose behaviour the language leaves undefined return the reason as a
  value instead of a result.
\<close>

datatype undefined_behaviour =
    DivisionByZero
  | SignedOverflow
  | ShiftOutOfRange
  | BuiltinOfZero

text \<open>
  Modelled from the spec: the header \<^verbatim>\<open>src/__support/CPP/limits.h\<close> is not part of the
  sources at hand. The numeric-limits provider "supplies, per integer type, the bit
  width (digits) and the maximum representable value".
\<close>

definition digits :: "'a::len word itself \<Rightarrow> nat" where
  "digits T = LENGTH('a)"

definition max_value :: "'a::len word" where
  "max_value = - 1"

section \<open>Single-bit test\<close>

definition has_single_bit :: "'a::len word \<Rightarrow> bool" where
  "has_single_bit value \<longleftrightarrow> value \<noteq> 0 \<and> value AND (value - 1) = 0"

section \<open>Counting zeros\<close>

text \<open>
  The \<open>while\<close> loop of \<open>countr_zero\<close>, over the variables \<open>value\<close>, \<open>zero_bits\<close>,
  \<open>shift\<close> and \<open>mask\<close> (here \<open>maskv\<close>). Every right shift is by \<open>shift\<close>, which starts at
  \<open>digits >> 1\<close> and only decreases, so each is a defined shift.
\<close>

function countr_zero_loop :: "'a::len word \<Rightarrow> nat \<Rightarrow> nat \<Rightarrow> 'a word \<Rightarrow> nat" where
  "countr_zero_loop value zero_bits shift maskv =
     (if shift = 0 then zero_bits
      else if value AND maskv = 0
        then countr_zero_loop (drop_bit shift value) (zero_bits OR shift)
               (drop_bit 1 shift) (drop_bit (drop_bit 1 shift) maskv)
        else countr_zero_loop value zero_bits
               (drop_bit 1 shift) (drop_bit (drop_bit 1 shift) maskv))"
  by pat_completeness auto
termination
  by (relation "measure (\<lambda>(value, zero_bits, shift, maskv). shift)")
     (auto simp: drop_bit_eq_div)

definition countr_zero :: "'a::len word \<Rightarrow> int" where
  "countr_zero value =
     (if value = 0 then int (digits TYPE('a word))
      else if value AND 1 \<noteq> 0 then 0
      else int (countr_zero_loop value 0
                  (drop_bit 1 (digits TYPE('a word)))
                  (drop_bit (drop_bit 1 (digits TYPE('a word))) max_value)))"

text \<open>The \<open>for\<close> loop of \<open>countl_zero\<close>, over \<open>value\<close>, \<open>zero_bits\<close> and \<open>shift\<close>.\<close>

function countl_zero_loop :: "'a::len word \<Rightarrow> nat \<Rightarrow> nat \<Rightarrow> nat" where
  "countl_zero_loop value zero_bits shift =
     (if shift = 0 then zero_bits
      else if drop_bit shift value \<noteq> 0
        then countl_zero_loop (drop_bit shift value) zero_bits (drop_bit 1 shift)
        else countl_zero_loop value (zero_bits OR shift) (drop_bit 1 shift))"
  by pat_completeness auto
termination
  by (relation "measure (\<lambda>(value, zero_bits, shift). shift)")
     (auto simp: drop_bit_eq_div)

definition countl_zero :: "'a::len word \<Rightarrow> int" where
  "countl_zero value =
     (if value = 0 then int (digits TYPE('a word))
      else int (countl_zero_loop value 0 (drop_bit 1 (digits TYPE('a word)))))"

text \<open>
  Modelled from the spec: the compiler intrinsics \<^verbatim>\<open>__builtin_ctzs\<close>, \<^verbatim>\<open>__builtin_ctz\<close>,
  \<^verbatim>\<open>__builtin_ctzl\<close>, \<^verbatim>\<open>__builtin_ctzll\<close> and their \<^verbatim>\<open>clz\<close> counterparts belong to the
  toolchain, not to the sources. They are the native "count trailing/leading zero
  bits" instructions, "typically undefined at zero", and agree with "a naive linear
  bit scan": the trailing count is the index of the first set bit found scanning
  upwards from bit 0, the leading count is the number of bits above the first set
  bit found scanning downwards from the top bit.
\<close>

definition builtin_ctz :: "'a::len word \<Rightarrow> undefined_behaviour + int" where
  "builtin_ctz x =
     (case find (bit x) [0..<LENGTH('a)] of
        None \<Rightarrow> Inl BuiltinOfZero
      | Some i \<Rightarrow> Inr (int i))"

definition builtin_clz :: "'a::len word \<Rightarrow> undefined_behaviour + int" where
  "builtin_clz x =
     (case find (bit x) (rev [0..<LENGTH('a)]) of
        None \<Rightarrow> Inl BuiltinOfZero
      | Some i \<Rightarrow> Inr (int (LENGTH('a) - 1 - i)))"

text \<open>
  The macro \<open>ADD_SPECIALIZATION(NAME, TYPE, BUILTIN)\<close>: the body of the specialised
  function, with the intrinsic as a parameter.
\<close>

definition ADD_SPECIALIZATION ::
    "('a::len word \<Rightarrow> undefined_behaviour + int) \<Rightarrow> 'a word \<Rightarrow> undefined_behaviour + int" where
  "ADD_SPECIALIZATION BUILTIN value =
     (if value = 0 then Inr (int (digits TYPE('a word))) else BUILTIN value)"

definition countr_zero_specialization :: "'a::len word \<Rightarrow> undefined_behaviour + int" where
  "countr_zero_specialization = ADD_SPECIALIZATION builtin_ctz"

definition countl_zero_specialization :: "'a::len word \<Rightarrow> undefined_behaviour + int" where
  "countl_zero_specialization = ADD_SPECIALIZATION builtin_clz"

section \<open>Counting ones\<close>

definition countl_one :: "'a::len word \<Rightarrow> int" where
  "countl_one value = countl_zero (NOT value)"

definition countr_one :: "'a::len word \<Rightarrow> int" where
  "countr_one value = countr_zero (NOT value)"

section \<open>Width, floor and ceiling\<close>

text \<open>
  Shifts. The left operand of a shift is promoted first: a type narrower than \<open>int\<close>
  becomes \<open>int\<close>, every other type stays as it is. The shift is undefined when the
  amount is negative or not less than the width of the promoted operand; a left shift
  of a promoted (hence signed and non-negative) operand is undefined as well when the
  result is not representable in \<open>unsigned int\<close>. Every shift of the header is
  converted back to \<open>T\<close>, which keeps the low \<open>LENGTH('a)\<close> bits. The amount is given
  by its value.
\<close>

definition promoted_digits :: "'a::len word itself \<Rightarrow> nat" where
  "promoted_digits T = max 32 LENGTH('a)"

definition shl :: "'a::len word \<Rightarrow> int \<Rightarrow> undefined_behaviour + 'a word" where
  "shl x s =
     (if s < 0 \<or> int (promoted_digits TYPE('a word)) \<le> s then Inl ShiftOutOfRange
      else if LENGTH('a) < 32 \<and> 2 ^ 32 \<le> uint x * 2 ^ nat s then Inl SignedOverflow
      else Inr (push_bit (nat s) x))"

definition shr :: "'a::len word \<Rightarrow> int \<Rightarrow> undefined_behaviour + 'a word" where
  "shr x s =
     (if s < 0 \<or> int (promoted_digits TYPE('a word)) \<le> s then Inl ShiftOutOfRange
      else Inr (drop_bit (nat s) x))"

definition bit_width :: "'a::len word \<Rightarrow> int" where
  "bit_width value = int (digits TYPE('a word)) - countl_zero value"

definition bit_floor :: "'a::len word \<Rightarrow> undefined_behaviour + 'a word" where
  "bit_floor value = (if value = 0 then Inr 0 else shl 1 (bit_width value - 1))"

text \<open>
  In \<open>value < 2\<close> both operands are converted to a common type that holds 2 and the
  value, so the comparison is that of the numbers.
\<close>

definition bit_ceil :: "'a::len word \<Rightarrow> undefined_behaviour + 'a word" where
  "bit_ceil value = (if unat value < 2 then Inr 1 else shl 1 (bit_width (value - 1)))"

section \<open>Rotation\<close>

text \<open>
  The parameter \<open>rotate\<close> of the source is \<open>rot\<close> here, since \<open>rotate\<close> is a
  function on lists.

  The statement \<open>rotate = rotate % N\<close>, with \<open>rotate\<close> an \<open>int\<close> and \<open>N\<close> an
  \<open>unsigned\<close>. The usual arithmetic conversions convert \<open>rotate\<close> to \<open>unsigned\<close>, the
  remainder is the unsigned one, and the assignment converts it back to \<open>int\<close>.
\<close>

definition rotate_mod :: "c_int \<Rightarrow> c_unsigned \<Rightarrow> undefined_behaviour + c_int" where
  "rotate_mod rot N = (if N = 0 then Inl DivisionByZero else Inr (rot mod N))"

text \<open>The unary minus of an \<open>int\<close>.\<close>

definition negate :: "c_int \<Rightarrow> undefined_behaviour + c_int" where
  "negate rot = (if sint rot = - (2 ^ 31) then Inl SignedOverflow else Inr (- rot))"

text \<open>The bitwise or of two shifted values, each of which may be undefined.\<close>

fun bit_or :: "undefined_behaviour + 'a::len word \<Rightarrow> undefined_behaviour + 'a word
    \<Rightarrow> undefined_behaviour + 'a word" where
  "bit_or (Inl e) _ = Inl e"
| "bit_or (Inr a) (Inl e) = Inl e"
| "bit_or (Inr a) (Inr b) = Inr (a OR b)"

text \<open>
  The return expressions of \<open>rotl\<close> and \<open>rotr\<close>. In \<open>N - rotate\<close> the \<open>int\<close> is
  converted to \<open>unsigned\<close>, and the difference is an \<open>unsigned\<close>.
\<close>

definition rotl_shifts :: "'a::len word \<Rightarrow> c_int \<Rightarrow> c_unsigned \<Rightarrow> undefined_behaviour + 'a word" where
  "rotl_shifts value rot N = bit_or (shl value (sint rot)) (shr value (uint (N - rot)))"

definition rotr_shifts :: "'a::len word \<Rightarrow> c_int \<Rightarrow> c_unsigned \<Rightarrow> undefined_behaviour + 'a word" where
  "rotr_shifts value rot N = bit_or (shr value (sint rot)) (shl value (uint (N - rot)))"

text \<open>
  Termination: the only recursive call is made with the negation of a reduced amount
  that is negative as an \<open>int\<close>, and the reduction of that negation is not negative.
\<close>

lemma sint_c_int:
  fixes q :: "32 word"
  shows "sint q = (if uint q < 2 ^ 31 then uint q else uint q - 2 ^ 32)"
proof -
  have b: "0 \<le> uint q" "uint q < 2 ^ 32"
    using uint_bounded [of q] by simp_all
  have t: "0 \<le> take_bit 31 (uint q)" "take_bit 31 (uint q) < 2 ^ 31"
    using take_bit_int_less_exp [of 31 "uint q"] by simp_all
  have "take_bit (Suc 31) (uint q) = uint q"
    using b by (simp add: take_bit_int_eq_self)
  then have e: "uint q = 2 ^ 31 * of_bool (bit (uint q) 31) + take_bit 31 (uint q)"
    using take_bit_Suc_from_most [of 31 "uint q"] by simp
  have s: "sint q = uint q - 2 ^ 32 * of_bool (bit (uint q) 31)"
    using b by (simp add: sint_uint signed_take_bit_eq_take_bit_minus take_bit_int_eq_self)
  show ?thesis
  proof (cases "bit (uint q) 31")
    case True
    with e have "uint q = 2 ^ 31 + take_bit 31 (uint q)" by simp
    with t(1) have "2 ^ 31 \<le> uint q" by linarith
    with s True show ?thesis by simp
  next
    case False
    with e have "uint q = take_bit 31 (uint q)" by simp
    with t(2) have "uint q < 2 ^ 31" by linarith
    with s False show ?thesis by simp
  qed
qed

lemma sless0_iff: "(q :: 32 word) <s 0 \<longleftrightarrow> 2 ^ 31 \<le> uint q"
  using uint_bounded [of q] by (simp add: word_sless_alt sint_c_int)

lemma uint_neg_c_int:
  fixes q :: "32 word"
  assumes "q \<noteq> 0"
  shows "uint (- q) = 2 ^ 32 - uint q"
proof -
  have b: "0 < uint q" "uint q < 2 ^ 32"
    using uint_bounded [of q] assms by (simp_all add: word_neq_0_conv word_less_def)
  have "(2 ^ 32 - uint q) mod 2 ^ 32 = 2 ^ 32 - uint q"
    using b by (intro mod_pos_pos_trivial) simp_all
  moreover have "(2 ^ 32 - uint q) mod 2 ^ 32 = (- uint q) mod 2 ^ 32"
    by (metis add.commute mod_add_self2 uminus_add_conv_diff)
  ultimately show ?thesis by (simp add: uint_word_ariths(4))
qed

lemma neg_reduced_nonneg:
  fixes N r :: "32 word"
  assumes "N \<noteq> 0" "r mod N <s 0" "sint (r mod N) \<noteq> - (2 ^ 31)"
  shows "\<not> (- (r mod N)) mod N <s 0"
proof -
  define q where "q = r mod N"
  have qN: "q < N" unfolding q_def using assms(1) by (simp add: word_mod_less_divisor word_neq_0_conv)
  have q1: "2 ^ 31 < uint q"
    using assms(2,3) unfolding q_def [symmetric] sless0_iff
    by (simp add: sint_c_int split: if_splits)
  then have "q \<noteq> 0" by auto
  then have un: "uint (- q) = 2 ^ 32 - uint q" by (rule uint_neg_c_int)
  have "uint (- q) < uint N" using qN q1 un by (simp add: word_less_def)
  then have "- q < N" by (simp add: word_less_def)
  then have "(- q) mod N = - q" by (simp add: mod_word_less)
  then show ?thesis unfolding q_def [symmetric] sless0_iff using un q1 by simp
qed

function rotl :: "'a::len word \<Rightarrow> c_int \<Rightarrow> undefined_behaviour + 'a word"
  and rotr :: "'a::len word \<Rightarrow> c_int \<Rightarrow> undefined_behaviour + 'a word" where
  "rotl value rot =
     (let N = of_nat (digits TYPE('a word)) in
      case rotate_mod rot N of
        Inl e \<Rightarrow> Inl e
      | Inr rot \<Rightarrow>
          if rot = 0 then Inr value
          else if rot <s 0 then
            (case negate rot of Inl e \<Rightarrow> Inl e | Inr r \<Rightarrow> rotr value r)
          else rotl_shifts value rot N)"
| "rotr value rot =
     (let N = of_nat (digits TYPE('a word)) in
      case rotate_mod rot N of
        Inl e \<Rightarrow> Inl e
      | Inr rot \<Rightarrow>
          if rot = 0 then Inr value
          else if rot <s 0 then
            (case negate rot of Inl e \<Rightarrow> Inl e | Inr r \<Rightarrow> rotl value r)
          else rotr_shifts value rot N)"
  by pat_completeness auto

termination
  apply (relation "measure (\<lambda>x. case x of
      Inl (value :: 'a word, rot) \<Rightarrow> (if rot mod (of_nat (digits TYPE('a word))) <s 0 then 1 else 0)
    | Inr (value :: 'a word, rot) \<Rightarrow> (if rot mod (of_nat (digits TYPE('a word))) <s 0 then 1 else 0))")
  apply (auto simp: rotate_mod_def negate_def neg_reduced_nonneg split: if_splits)
  done

declare rotl.simps [simp del] rotr.simps [simp del]

section \<open>First leading zero and one\<close>

definition first_leading_zero :: "'a::len word \<Rightarrow> int" where
  "first_leading_zero value = (if value = max_value then 0 else countl_one value + 1)"

definition first_leading_one :: "'a::len word \<Rightarrow> int" where
  "first_leading_one value = first_leading_zero (NOT value)"

section \<open>Positions of set bits\<close>

text \<open>
  \<open>lowest_set_bit w n\<close>: bit \<open>n\<close> of \<open>w\<close> is set and no bit below it is.
  \<open>highest_set_bit w n\<close>: bit \<open>n\<close> of \<open>w\<close> is set and no bit above it is.
\<close>

definition lowest_set_bit :: "'a::len word \<Rightarrow> nat \<Rightarrow> bool" where
  "lowest_set_bit w n \<longleftrightarrow> bit w n \<and> (\<forall>i<n. \<not> bit w i)"

definition highest_set_bit :: "'a::len word \<Rightarrow> nat \<Rightarrow> bool" where
  "highest_set_bit w n \<longleftrightarrow> bit w n \<and> (\<forall>i>n. \<not> bit w i)"

section \<open>The bisection loops\<close>

declare countr_zero_loop.simps [simp del] countl_zero_loop.simps [simp del]

lemma pow2_or_small: "d < 2 ^ j \<Longrightarrow> (2::nat) ^ j OR d = 2 ^ j + d"
proof -
  assume d: "d < 2 ^ j"
  have "(2::nat) ^ j AND d = 0"
  proof (rule bit_eqI)
    fix n
    show "bit ((2::nat) ^ j AND d) n = bit (0::nat) n"
      using d by (auto simp: bit_simps dest: bit_imp_le_length)
         (metis bit_take_bit_iff less_irrefl take_bit_nat_eq_self)
  qed
  then show ?thesis by (simp add: disjunctive_add_eq_or)
qed

lemma lowest_set_bit_ex: "w \<noteq> 0 \<Longrightarrow> \<exists>c. lowest_set_bit w c"
proof -
  assume "w \<noteq> 0"
  then obtain n where n: "bit w n" by (auto simp: bit_eq_iff)
  define c where "c = (LEAST i. bit w i)"
  have "bit w c" unfolding c_def using n by (rule LeastI)
  moreover have "\<not> bit w i" if "i < c" for i
    using that not_less_Least unfolding c_def by blast
  ultimately show ?thesis unfolding lowest_set_bit_def by blast
qed

lemma lowest_set_bit_drop:
  assumes "lowest_set_bit w c" "take_bit s w = 0"
  shows "s \<le> c \<and> lowest_set_bit (drop_bit s w) (c - s)"
proof -
  have nb: "\<not> bit w i" if "i < s" for i
  proof
    assume "bit w i"
    with that have "bit (take_bit s w) i" by (simp add: bit_take_bit_iff)
    with assms(2) show False by simp
  qed
  have sc: "s \<le> c" using assms(1) nb unfolding lowest_set_bit_def by (meson not_le)
  then show ?thesis using assms(1) unfolding lowest_set_bit_def
    by (auto simp: bit_drop_bit_eq)
qed

lemma lowest_set_bit_nodrop:
  assumes "lowest_set_bit w c" "take_bit s w \<noteq> 0"
  shows "c < s"
proof -
  obtain i where "bit (take_bit s w) i" using assms(2) by (auto simp: bit_eq_iff)
  then have "i < s" "bit w i" by (auto simp: bit_take_bit_iff)
  then show ?thesis using assms(1) unfolding lowest_set_bit_def by (meson not_le le_less_trans leI)
qed

lemma countr_zero_loop_correct:
  fixes w :: "'a::len word"
  shows "lowest_set_bit w c \<Longrightarrow> c < 2 * 2 ^ j \<Longrightarrow> 2 * 2 ^ j \<le> LENGTH('a) \<Longrightarrow>
    countr_zero_loop w zb (2 ^ j) (mask (2 ^ j)) = zb OR c"
proof (induction j arbitrary: w zb c)
  case 0
  show ?case
  proof (cases "take_bit 1 w = 0")
    case True
    with 0 lowest_set_bit_drop [of w c 1] have "c = 1" by simp
    with True show ?thesis
      by (simp add: countr_zero_loop.simps [of _ _ _ 1] countr_zero_loop.simps [of _ _ 0] take_bit_eq_mask)
  next
    case False
    with 0 lowest_set_bit_nodrop [of w c 1] have "c = 0" by simp
    with False show ?thesis
      by (simp add: countr_zero_loop.simps [of _ _ _ 1] countr_zero_loop.simps [of _ _ 0] take_bit_eq_mask)
  qed
next
  case (Suc j)
  have half: "drop_bit 1 ((2::nat) ^ Suc j) = 2 ^ j" by (simp add: drop_bit_eq_div)
  have msk: "drop_bit (2 ^ j) (mask (2 ^ Suc j) :: 'a word) = mask (2 ^ j)"
    using Suc.prems(3) by (intro bit_word_eqI) (auto simp: bit_simps)
  show ?case
  proof (cases "take_bit (2 ^ Suc j) w = 0")
    case True
    from lowest_set_bit_drop [OF Suc.prems(1) True]
    have le: "2 ^ Suc j \<le> c" and low: "lowest_set_bit (drop_bit (2 ^ Suc j) w) (c - 2 ^ Suc j)"
      by simp_all
    from le Suc.prems(2) have lt: "c - 2 ^ Suc j < 2 * 2 ^ j" by simp
    have "countr_zero_loop w zb (2 ^ Suc j) (mask (2 ^ Suc j)) =
        countr_zero_loop (drop_bit (2 ^ Suc j) w) (zb OR 2 ^ Suc j) (2 ^ j) (mask (2 ^ j))"
      using True by (subst countr_zero_loop.simps) (simp only: half msk take_bit_eq_mask, simp)
    also have "\<dots> = (zb OR 2 ^ Suc j) OR (c - 2 ^ Suc j)"
      using Suc.prems(3) by (intro Suc.IH [OF low lt]) simp
    also have "\<dots> = zb OR (2 ^ Suc j + (c - 2 ^ Suc j))"
      using lt pow2_or_small [of "c - 2 ^ Suc j" "Suc j"] by (simp add: or.assoc)
    finally show ?thesis using le by simp
  next
    case False
    from lowest_set_bit_nodrop [OF Suc.prems(1) False] have lt: "c < 2 * 2 ^ j" by simp
    have "countr_zero_loop w zb (2 ^ Suc j) (mask (2 ^ Suc j)) =
        countr_zero_loop w zb (2 ^ j) (mask (2 ^ j))"
      using False by (subst countr_zero_loop.simps) (simp only: half msk take_bit_eq_mask, simp)
    then show ?thesis using Suc.IH [OF Suc.prems(1) lt] Suc.prems(3) by simp
  qed
qed

lemma countr_zero_lowest:
  fixes w :: "'a::len word"
  assumes len: "LENGTH('a) = 2 ^ k" and nz: "w \<noteq> 0"
  shows "\<exists>c. lowest_set_bit w c \<and> countr_zero w = int c"
proof -
  from nz obtain c where c: "lowest_set_bit w c" using lowest_set_bit_ex by blast
  then have cN: "c < LENGTH('a)" by (auto simp: lowest_set_bit_def dest: bit_imp_le_length)
  show ?thesis
  proof (cases "w AND 1 = 0")
    case False
    then have "bit w 0" by (simp add: and_one_eq bit_0 mod_2_eq_odd)
    with c have "c = 0" unfolding lowest_set_bit_def by (meson not_gr_zero)
    with c False nz show ?thesis by (auto simp: countr_zero_def)
  next
    case True
    then have b0: "\<not> bit w 0" by (simp add: and_one_eq bit_0 mod_2_eq_odd)
    with c have "c \<noteq> 0" unfolding lowest_set_bit_def by (cases c) auto
    with cN len have "k \<noteq> 0" by (cases k) auto
    then obtain j where k: "k = Suc j" by (cases k) auto
    have half: "drop_bit 1 (LENGTH('a)) = 2 ^ j" by (simp add: len k drop_bit_eq_div)
    have msk: "drop_bit (2 ^ j) (- 1 :: 'a word) = mask (2 ^ j)"
      by (simp add: drop_bit_of_minus_1_eq len k)
    have "countr_zero_loop w 0 (2 ^ j) (mask (2 ^ j)) = 0 OR c"
      using cN by (intro countr_zero_loop_correct [OF c]) (simp_all add: len k)
    moreover have "countr_zero w = int (countr_zero_loop w 0 (2 ^ j) (mask (2 ^ j)))"
      unfolding countr_zero_def digits_def max_value_def half msk using True nz by simp
    ultimately show ?thesis using c by auto
  qed
qed

lemma highest_set_bit_ex:
  fixes w :: "'a::len word"
  shows "w \<noteq> 0 \<Longrightarrow> \<exists>h. highest_set_bit w h"
proof -
  assume "w \<noteq> 0"
  then obtain n where n: "bit w n" by (auto simp: bit_eq_iff)
  have bound: "i \<le> LENGTH('a)" if "bit w i" for i
    using that by (auto dest: bit_imp_le_length)
  define h where "h = (GREATEST i. bit w i)"
  have "bit w h" unfolding h_def using n bound by (rule GreatestI_nat)
  moreover have "\<not> bit w i" if "h < i" for i
  proof
    assume "bit w i"
    then have "i \<le> h" unfolding h_def using bound by (rule Greatest_le_nat)
    with that show False by simp
  qed
  ultimately show ?thesis unfolding highest_set_bit_def by blast
qed

lemma highest_set_bit_drop:
  assumes "highest_set_bit w h" "drop_bit s w \<noteq> 0"
  shows "s \<le> h \<and> highest_set_bit (drop_bit s w) (h - s)"
proof -
  obtain i where "bit (drop_bit s w) i" using assms(2) by (auto simp: bit_eq_iff)
  then have "bit w (s + i)" by (simp add: bit_drop_bit_eq)
  with assms(1) have "s + i \<le> h" unfolding highest_set_bit_def by (meson not_le)
  then have sh: "s \<le> h" by simp
  then show ?thesis using assms(1) unfolding highest_set_bit_def
    by (auto simp: bit_drop_bit_eq)
qed

lemma highest_set_bit_nodrop:
  assumes "highest_set_bit w h" "drop_bit s w = 0"
  shows "h < s"
proof (rule ccontr)
  assume "\<not> h < s"
  then have "bit (drop_bit s w) (h - s)"
    using assms(1) by (simp add: bit_drop_bit_eq highest_set_bit_def)
  with assms(2) show False by simp
qed

lemma countl_zero_loop_correct:
  fixes w :: "'a::len word"
  shows "highest_set_bit w h \<Longrightarrow> h < 2 * 2 ^ j \<Longrightarrow>
    countl_zero_loop w zb (2 ^ j) = zb OR (2 * 2 ^ j - 1 - h)"
proof (induction j arbitrary: w zb h)
  case 0
  show ?case
  proof (cases "drop_bit 1 w = 0")
    case True
    with 0 highest_set_bit_nodrop [of w h 1] have "h = 0" by simp
    with True show ?thesis
      by (simp add: countl_zero_loop.simps [of _ _ "Suc 0"] countl_zero_loop.simps [of _ _ 0])
  next
    case False
    with 0 highest_set_bit_drop [of w h 1] have "h = 1" by simp
    with False show ?thesis
      by (simp add: countl_zero_loop.simps [of _ _ "Suc 0"] countl_zero_loop.simps [of _ _ 0])
  qed
next
  case (Suc j)
  have half: "drop_bit 1 ((2::nat) ^ Suc j) = 2 ^ j" by (simp add: drop_bit_eq_div)
  show ?case
  proof (cases "drop_bit (2 ^ Suc j) w = 0")
    case False
    from highest_set_bit_drop [OF Suc.prems(1) False]
    have le: "2 ^ Suc j \<le> h" and high: "highest_set_bit (drop_bit (2 ^ Suc j) w) (h - 2 ^ Suc j)"
      by simp_all
    from le Suc.prems(2) have lt: "h - 2 ^ Suc j < 2 * 2 ^ j" by simp
    have "countl_zero_loop w zb (2 ^ Suc j) =
        countl_zero_loop (drop_bit (2 ^ Suc j) w) zb (2 ^ j)"
      using False by (subst countl_zero_loop.simps) (simp only: half, simp)
    also have "\<dots> = zb OR (2 * 2 ^ j - 1 - (h - 2 ^ Suc j))"
      by (rule Suc.IH [OF high lt])
    also have "2 * 2 ^ j - 1 - (h - 2 ^ Suc j) = 2 * 2 ^ Suc j - 1 - h"
      using le Suc.prems(2) by simp
    finally show ?thesis .
  next
    case True
    from highest_set_bit_nodrop [OF Suc.prems(1) True] have lt: "h < 2 * 2 ^ j" by simp
    have "countl_zero_loop w zb (2 ^ Suc j) =
        countl_zero_loop w (zb OR 2 ^ Suc j) (2 ^ j)"
      using True by (subst countl_zero_loop.simps) (simp only: half, simp)
    also have "\<dots> = (zb OR 2 ^ Suc j) OR (2 * 2 ^ j - 1 - h)"
      by (rule Suc.IH [OF Suc.prems(1) lt])
    also have "\<dots> = zb OR (2 ^ Suc j + (2 * 2 ^ j - 1 - h))"
      using pow2_or_small [of "2 * 2 ^ j - 1 - h" "Suc j"] by (simp add: or.assoc)
    also have "2 ^ Suc j + (2 * 2 ^ j - 1 - h) = 2 * 2 ^ Suc j - 1 - h"
      using lt by simp
    finally show ?thesis .
  qed
qed

lemma countl_zero_highest:
  fixes w :: "'a::len word"
  assumes len: "LENGTH('a) = 2 ^ k" and nz: "w \<noteq> 0"
  shows "\<exists>h. highest_set_bit w h \<and> h < LENGTH('a) \<and> countl_zero w = int (LENGTH('a) - 1 - h)"
proof -
  from nz obtain h where h: "highest_set_bit w h" using highest_set_bit_ex by blast
  then have hN: "h < LENGTH('a)" by (auto simp: highest_set_bit_def dest: bit_imp_le_length)
  show ?thesis
  proof (cases k)
    case 0
    with len hN have "h = 0" by simp
    moreover have "countl_zero w = 0"
      unfolding countl_zero_def digits_def using nz len 0
      by (simp add: countl_zero_loop.simps [of _ _ 0] drop_bit_eq_div)
    ultimately show ?thesis using h len 0 by auto
  next
    case (Suc j)
    have half: "drop_bit 1 (LENGTH('a)) = 2 ^ j" by (simp add: len Suc drop_bit_eq_div)
    have "countl_zero_loop w 0 (2 ^ j) = 0 OR (2 * 2 ^ j - 1 - h)"
      using hN by (intro countl_zero_loop_correct [OF h]) (simp_all add: len Suc)
    moreover have "countl_zero w = int (countl_zero_loop w 0 (2 ^ j))"
      unfolding countl_zero_def digits_def half using nz by simp
    ultimately show ?thesis using h hN by (auto simp: len Suc)
  qed
qed

section \<open>The counting functions\<close>

text \<open>
  C2. For an unsigned type whose bit width \<open>N\<close> is a power of two, and every value of
  it: \<open>countr_zero value\<close> is \<open>N\<close> if and only if the value is 0, and for a nonzero
  value the value shifted right by \<open>countr_zero value\<close> is odd; \<open>countr_zero value\<close> is
  the index of the least significant set bit.
\<close>

theorem countr_zero_least_significant_set_bit:
  fixes "value" :: "'a::len word"
  assumes "LENGTH('a) = 2 ^ k"
  shows "(countr_zero value = int (digits TYPE('a word)) \<longleftrightarrow> value = 0) \<and>
    (value \<noteq> 0 \<longrightarrow>
       0 \<le> countr_zero value \<and>
       odd (drop_bit (nat (countr_zero value)) value) \<and>
       lowest_set_bit value (nat (countr_zero value)))"
proof (cases "value = 0")
  case True
  then show ?thesis by (simp add: countr_zero_def)
next
  case False
  from countr_zero_lowest [OF assms False] obtain c
    where c: "lowest_set_bit value c" "countr_zero value = int c" by blast
  then have "bit value c" by (simp add: lowest_set_bit_def)
  then have "c < LENGTH('a)" "odd (drop_bit c value)"
    by (auto simp flip: bit_iff_odd_drop_bit dest: bit_imp_le_length)
  with c False show ?thesis by (simp add: digits_def)
qed

theorem countr_zero_least_significant_set_bit_witness:
  "LENGTH(16) = (2::nat) ^ 4 \<and> (40 :: 16 word) \<noteq> 0 \<and>
   countr_zero (40 :: 16 word) \<noteq> int (digits TYPE(16 word)) \<and>
   odd (drop_bit (nat (countr_zero (40 :: 16 word))) (40 :: 16 word)) \<and>
   lowest_set_bit (40 :: 16 word) (nat (countr_zero (40 :: 16 word)))"
proof -
  have len: "LENGTH(16) = (2::nat) ^ 4" by simp
  have nz: "(40 :: 16 word) \<noteq> 0" by simp
  from countr_zero_least_significant_set_bit [OF len, of 40] len nz show ?thesis by blast
qed

text \<open>
  C3. For an unsigned type whose bit width \<open>N\<close> is a power of two, and every value of
  it: \<open>countl_zero value\<close> is \<open>N\<close> if and only if the value is 0, and for a nonzero
  value the bit at position \<open>N - 1 - countl_zero value\<close> is set and every bit at a
  higher position is zero.
\<close>

theorem countl_zero_most_significant_set_bit:
  fixes "value" :: "'a::len word"
  assumes "LENGTH('a) = 2 ^ k"
  shows "(countl_zero value = int (digits TYPE('a word)) \<longleftrightarrow> value = 0) \<and>
    (value \<noteq> 0 \<longrightarrow>
       0 \<le> countl_zero value \<and> countl_zero value < int (digits TYPE('a word)) \<and>
       highest_set_bit value (nat (int (digits TYPE('a word)) - 1 - countl_zero value)))"
proof (cases "value = 0")
  case True
  then show ?thesis by (simp add: countl_zero_def)
next
  case False
  from countl_zero_highest [OF assms False] obtain h
    where h: "highest_set_bit value h" "h < LENGTH('a)"
      "countl_zero value = int (LENGTH('a) - 1 - h)" by blast
  then have "nat (int LENGTH('a) - 1 - countl_zero value) = h" by simp
  with h False show ?thesis by (simp add: digits_def)
qed

theorem countl_zero_most_significant_set_bit_witness:
  "LENGTH(16) = (2::nat) ^ 4 \<and> (40 :: 16 word) \<noteq> 0 \<and>
   countl_zero (40 :: 16 word) \<noteq> int (digits TYPE(16 word)) \<and>
   highest_set_bit (40 :: 16 word)
     (nat (int (digits TYPE(16 word)) - 1 - countl_zero (40 :: 16 word)))"
proof -
  have len: "LENGTH(16) = (2::nat) ^ 4" by simp
  have nz: "(40 :: 16 word) \<noteq> 0" by simp
  from countl_zero_most_significant_set_bit [OF len, of 40] len nz show ?thesis by blast
qed

section \<open>The specialisations\<close>

lemma find_lowest_set_bit:
  fixes w :: "'a::len word"
  assumes "lowest_set_bit w c"
  shows "find (bit w) [0..<LENGTH('a)] = Some c"
proof -
  from assms have c: "bit w c" "\<And>i. i < c \<Longrightarrow> \<not> bit w i"
    by (simp_all add: lowest_set_bit_def)
  then have "c < LENGTH('a)" by (auto dest: bit_imp_le_length)
  with c show ?thesis
    unfolding find_Some_iff by (intro exI [of _ c]) simp
qed

lemma find_highest_set_bit:
  fixes w :: "'a::len word"
  assumes "highest_set_bit w h"
  shows "find (bit w) (rev [0..<LENGTH('a)]) = Some h"
proof -
  from assms have h: "bit w h" "\<And>i. h < i \<Longrightarrow> \<not> bit w i"
    by (simp_all add: highest_set_bit_def)
  then have lt: "h < LENGTH('a)" by (auto dest: bit_imp_le_length)
  show ?thesis
    unfolding find_Some_iff
  proof (intro exI [of _ "LENGTH('a) - 1 - h"] conjI allI impI)
    show "LENGTH('a) - 1 - h < length (rev [0..<LENGTH('a)])" using lt by simp
    show "bit w (rev [0..<LENGTH('a)] ! (LENGTH('a) - 1 - h))"
      using lt h(1) by (simp add: rev_nth)
    show "h = rev [0..<LENGTH('a)] ! (LENGTH('a) - 1 - h)"
      using lt by (simp add: rev_nth)
    fix j assume "j < LENGTH('a) - 1 - h"
    then show "\<not> bit w (rev [0..<LENGTH('a)] ! j)"
      using lt by (simp add: rev_nth h(2))
  qed
qed

text \<open>
  C1. For every unsigned type whose bit width is a power of two (as that of
  \<open>unsigned short\<close>, \<open>unsigned int\<close>, \<open>unsigned long\<close> and \<open>unsigned long long\<close>),
  the specialisation of \<open>countr_zero\<close> and of \<open>countl_zero\<close> that \<open>ADD_SPECIALIZATION\<close>
  builds from the intrinsic returns, for every value of the type, zero included, the
  result of the generic bisection.
\<close>

theorem specializations_agree_with_bisection:
  fixes "value" :: "'a::len word"
  assumes "LENGTH('a) = 2 ^ k"
  shows "countr_zero_specialization value = Inr (countr_zero value) \<and>
    countl_zero_specialization value = Inr (countl_zero value)"
proof (cases "value = 0")
  case True
  then show ?thesis
    by (simp add: countr_zero_specialization_def countl_zero_specialization_def
        ADD_SPECIALIZATION_def countr_zero_def countl_zero_def)
next
  case False
  from countr_zero_lowest [OF assms False] obtain c
    where c: "lowest_set_bit value c" "countr_zero value = int c" by blast
  from countl_zero_highest [OF assms False] obtain h
    where h: "highest_set_bit value h" "h < LENGTH('a)"
      "countl_zero value = int (LENGTH('a) - 1 - h)" by blast
  have "builtin_ctz value = Inr (countr_zero value)"
    by (simp add: builtin_ctz_def find_lowest_set_bit [OF c(1)] c(2))
  moreover have "builtin_clz value = Inr (countl_zero value)"
    by (simp add: builtin_clz_def find_highest_set_bit [OF h(1)] h(3))
  ultimately show ?thesis using False
    by (simp add: countr_zero_specialization_def countl_zero_specialization_def
        ADD_SPECIALIZATION_def)
qed

theorem specializations_agree_with_bisection_witness:
  "LENGTH(32) = (2::nat) ^ 5 \<and>
   countr_zero_specialization (40 :: 32 word) = Inr (countr_zero (40 :: 32 word)) \<and>
   countl_zero_specialization (40 :: 32 word) = Inr (countl_zero (40 :: 32 word)) \<and>
   countr_zero_specialization (0 :: 32 word) = Inr (countr_zero (0 :: 32 word)) \<and>
   countl_zero_specialization (0 :: 32 word) = Inr (countl_zero (0 :: 32 word))"
proof -
  have len: "LENGTH(32) = (2::nat) ^ 5" by simp
  from specializations_agree_with_bisection [OF len, of 40]
    specializations_agree_with_bisection [OF len, of 0] len
  show ?thesis by blast
qed

section \<open>Rotation by the reduced amount\<close>

lemma shift_amounts:
  fixes q N :: "32 word"
  assumes "q < N" "q \<noteq> 0" "\<not> q <s 0"
  shows "sint q = uint q" "0 < uint q" "uint q < uint N"
    "uint (N - q) = uint N - uint q"
proof -
  from assms(3) show s: "sint q = uint q" by (simp add: sless0_iff sint_c_int)
  from assms(2) show "0 < uint q" by (simp add: word_neq_0_conv word_less_def)
  from assms(1) show lt: "uint q < uint N" by (simp add: word_less_def)
  then have "uint q \<le> uint N" by simp
  then show "uint (N - q) = uint N - uint q" by (simp only: uint_sub_lem)
qed

lemma uint_digits_le:
  "uint (of_nat (digits TYPE('a::len word)) :: 32 word) \<le> int (promoted_digits TYPE('a word))"
proof -
  have "uint (of_nat LENGTH('a) :: 32 word) \<le> int LENGTH('a)"
    by (simp add: uint_nat unat_of_nat)
  then show ?thesis by (simp add: digits_def promoted_digits_def)
qed

lemma uint_digits_le_length:
  "uint (of_nat (digits TYPE('a::len word)) :: 32 word) \<le> int LENGTH('a)"
  by (simp add: uint_nat unat_of_nat digits_def)

lemma shl_in_range:
  "0 \<le> s \<Longrightarrow> s < int (promoted_digits TYPE('a::len word)) \<Longrightarrow>
    shl (x :: 'a word) s \<noteq> Inl ShiftOutOfRange"
  by (simp add: shl_def)

lemma shr_in_range:
  "0 \<le> s \<Longrightarrow> s < int (promoted_digits TYPE('a::len word)) \<Longrightarrow>
    shr (x :: 'a word) s = Inr (drop_bit (nat s) x)"
  by (simp add: shr_def)

lemma bit_or_in_range:
  "a \<noteq> Inl ShiftOutOfRange \<Longrightarrow> b \<noteq> Inl ShiftOutOfRange \<Longrightarrow>
    bit_or a b \<noteq> Inl ShiftOutOfRange"
  by (cases a; cases b) auto

lemma shifts_in_range:
  fixes "value" :: "'a::len word" and q N :: "32 word"
  assumes N: "N = of_nat (digits TYPE('a word))"
    and q: "q < N" "q \<noteq> 0" "\<not> q <s 0"
  shows "rotl_shifts value q N \<noteq> Inl ShiftOutOfRange"
    and "rotr_shifts value q N \<noteq> Inl ShiftOutOfRange"
proof -
  note a = shift_amounts [OF q]
  have le: "uint N \<le> int (promoted_digits TYPE('a word))"
    unfolding N by (rule uint_digits_le)
  have 1: "0 \<le> sint q" "sint q < int (promoted_digits TYPE('a word))"
    using a le by simp_all
  have 2: "0 \<le> uint (N - q)" "uint (N - q) < int (promoted_digits TYPE('a word))"
    using a le by simp_all
  show "rotl_shifts value q N \<noteq> Inl ShiftOutOfRange"
    unfolding rotl_shifts_def
    by (intro bit_or_in_range shl_in_range 1) (simp add: shr_in_range [OF 2])
  show "rotr_shifts value q N \<noteq> Inl ShiftOutOfRange"
    unfolding rotr_shifts_def
    by (intro bit_or_in_range shl_in_range 2) (simp add: shr_in_range [OF 1])
qed

lemma rotate_mod_Inr:
  "rotate_mod rot N = Inr q \<Longrightarrow> N \<noteq> 0 \<and> q = rot mod N \<and> q < N"
  by (auto simp: rotate_mod_def word_mod_less_divisor word_neq_0_conv split: if_splits)

lemma no_shift_out_of_range:
  fixes "value" :: "'a::len word"
  shows "rotl value rot \<noteq> Inl ShiftOutOfRange" and "rotr value rot \<noteq> Inl ShiftOutOfRange"
proof -
  define N :: "32 word" where "N = of_nat (digits TYPE('a word))"
  have direct: "rotl_shifts v (r mod N) N \<noteq> Inl ShiftOutOfRange \<and>
      rotr_shifts v (r mod N) N \<noteq> Inl ShiftOutOfRange"
    if "N \<noteq> 0" "r mod N \<noteq> 0" "\<not> r mod N <s 0" for v :: "'a word" and r
    using shifts_in_range [OF N_def _ that(2,3), of v] that(1)
    by (simp add: word_mod_less_divisor word_neq_0_conv)
  have hop: "(- (r mod N)) mod N = 0 \<or>
      (\<not> (- (r mod N)) mod N <s 0 \<and> (- (r mod N)) mod N \<noteq> 0)"
    if "N \<noteq> 0" "r mod N <s 0" "sint (r mod N) \<noteq> - (2 ^ 31)" for r
    using neg_reduced_nonneg [OF that] by blast
  show "rotl value rot \<noteq> Inl ShiftOutOfRange"
    using direct [of rot "value"] direct [of "- (rot mod N)" "value"] hop [of rot]
    by (auto simp: rotl.simps [of "value" rot] rotr.simps [of "value" "- (rot mod N)"]
        rotate_mod_def negate_def N_def [symmetric] Let_def split: sum.splits if_splits)
  show "rotr value rot \<noteq> Inl ShiftOutOfRange"
    using direct [of rot "value"] direct [of "- (rot mod N)" "value"] hop [of rot]
    by (auto simp: rotr.simps [of "value" rot] rotl.simps [of "value" "- (rot mod N)"]
        rotate_mod_def negate_def N_def [symmetric] Let_def split: sum.splits if_splits)
qed

lemma digits_power_of_two:
  assumes "LENGTH('a::len) = 2 ^ k" "k < 32"
  shows "uint (of_nat (digits TYPE('a word)) :: 32 word) = 2 ^ k"
    and "(of_nat (digits TYPE('a word)) :: 32 word) \<noteq> 0"
proof -
  define M :: "32 word" where "M = of_nat (2 ^ k)"
  have lt: "(2::nat) ^ k < 2 ^ 32" using assms(2) by (simp only: power_strict_increasing_iff)
  have "unat M = 2 ^ k mod 2 ^ LENGTH(32)" unfolding M_def by (rule unat_of_nat)
  also have "\<dots> = 2 ^ k" using lt by simp
  finally have "uint M = 2 ^ k" by (simp add: uint_nat)
  moreover have "(of_nat (digits TYPE('a word)) :: 32 word) = M"
    by (simp only: digits_def assms(1) M_def)
  ultimately show u: "uint (of_nat (digits TYPE('a word)) :: 32 word) = 2 ^ k"
    by simp
  show "(of_nat (digits TYPE('a word)) :: 32 word) \<noteq> 0"
  proof
    assume "(of_nat (digits TYPE('a word)) :: 32 word) = 0"
    with u show False by simp
  qed
qed

lemma rotate_mod_power_of_two:
  assumes "LENGTH('a::len) = 2 ^ k" "k < 32"
  defines "N \<equiv> of_nat (digits TYPE('a word)) :: 32 word"
  shows "rotate_mod rot N = Inr (rot mod N)"
    and "uint (rot mod N) = uint rot mod 2 ^ k"
    and "uint (rot mod N) < 2 ^ k"
    and "\<not> rot mod N <s 0"
    and "rot mod N < N"
proof -
  note d = digits_power_of_two [OF assms(1,2)]
  show "rotate_mod rot N = Inr (rot mod N)" using d(2) by (simp add: rotate_mod_def N_def)
  show m: "uint (rot mod N) = uint rot mod 2 ^ k" by (simp add: uint_mod_distrib N_def d(1))
  then show lt: "uint (rot mod N) < 2 ^ k" by simp
  have "(2::int) ^ k \<le> 2 ^ 31" using assms(2) by (intro power_increasing) simp_all
  with lt show "\<not> rot mod N <s 0" by (simp add: sless0_iff)
  show "rot mod N < N" using d(2) by (simp add: N_def word_mod_less_divisor word_neq_0_conv)
qed

lemma shl_defined:
  fixes x :: "'a::len word"
  assumes "LENGTH('a) = 2 ^ k" "n < LENGTH('a)"
  shows "shl x (int n) = Inr (push_bit n x)"
proof -
  have "uint x * 2 ^ n < 2 ^ 32" if small: "LENGTH('a) < 32"
  proof -
    from small assms(1) have "(2::nat) ^ k < 2 ^ 5" by simp
    then have "k < 5" by (simp only: power_strict_increasing_iff)
    then have "(2::nat) ^ k \<le> 2 ^ 4" by (intro power_increasing) simp_all
    with assms have L: "LENGTH('a) \<le> 16" and n: "n \<le> 15" by simp_all
    have "uint x < 2 ^ LENGTH('a)" by (rule uint_bounded)
    also have "(2::int) ^ LENGTH('a) \<le> 2 ^ 16" using L by (intro power_increasing) simp_all
    finally have x: "uint x < 2 ^ 16" .
    have "(2::int) ^ n \<le> 2 ^ 15" using n by (intro power_increasing) simp_all
    with x have "uint x * 2 ^ n \<le> 2 ^ 16 * 2 ^ 15"
      by (intro mult_mono) simp_all
    then show ?thesis by simp
  qed
  then show ?thesis using assms(2) by (auto simp: shl_def promoted_digits_def)
qed

lemma shr_defined:
  fixes x :: "'a::len word"
  assumes "n < LENGTH('a)"
  shows "shr x (int n) = Inr (drop_bit n x)"
  using assms by (simp add: shr_def promoted_digits_def)

lemma shifts_eq_word_rotl:
  fixes x :: "'a::len word"
  assumes "0 < n" "n < LENGTH('a)"
  shows "push_bit n x OR drop_bit (LENGTH('a) - n) x = word_rotl n x"
proof (rule bit_word_eqI)
  fix i assume i: "i < LENGTH('a)"
  show "bit (push_bit n x OR drop_bit (LENGTH('a) - n) x) i = bit (word_rotl n x) i"
  proof (cases "i < n")
    case True
    then have "(i + (LENGTH('a) - n mod LENGTH('a))) mod LENGTH('a) = LENGTH('a) - n + i"
      using assms by simp
    then show ?thesis using True i assms
      by (simp add: bit_simps)
  next
    case False
    then have "(i + (LENGTH('a) - n mod LENGTH('a))) mod LENGTH('a) = i - n"
      using assms i by (simp add: mod_if)
    then show ?thesis using False i assms
      by (auto simp: bit_simps dest: bit_imp_le_length)
  qed
qed

lemma shifts_eq_word_rotr:
  fixes x :: "'a::len word"
  assumes "0 < n" "n < LENGTH('a)"
  shows "drop_bit n x OR push_bit (LENGTH('a) - n) x = word_rotr n x"
proof (rule bit_word_eqI)
  fix i assume i: "i < LENGTH('a)"
  show "bit (drop_bit n x OR push_bit (LENGTH('a) - n) x) i = bit (word_rotr n x) i"
  proof (cases "i + n < LENGTH('a)")
    case True
    then have "(i + n) mod LENGTH('a) = i + n" by simp
    then show ?thesis using True i assms
      by (auto simp: bit_simps ac_simps)
  next
    case False
    then have "(i + n) mod LENGTH('a) = i + n - LENGTH('a)"
      using assms i by (simp add: mod_if)
    moreover have "i - (LENGTH('a) - n) = i + n - LENGTH('a)" using False assms by simp
    ultimately show ?thesis using False i assms
      by (auto simp: bit_simps ac_simps dest: bit_imp_le_length)
  qed
qed

lemma rotl_rotr_direct:
  fixes "value" :: "'a::len word"
  assumes "LENGTH('a) = 2 ^ k" "k < 32"
  defines "N \<equiv> of_nat (digits TYPE('a word)) :: 32 word"
  shows "rotl value rot =
      (if rot mod N = 0 then Inr value else rotl_shifts value (rot mod N) N)"
    and "rotr value rot =
      (if rot mod N = 0 then Inr value else rotr_shifts value (rot mod N) N)"
  using rotate_mod_power_of_two(1,4) [OF assms(1,2), of rot]
  by (simp_all add: rotl.simps [of "value" rot] rotr.simps [of "value" rot] N_def Let_def)

lemma word_rot_0: "word_rotl 0 w = w" "word_rotr 0 w = w"
  apply (rule bit_word_eqI) apply (simp add: bit_word_rotl_iff)
  apply (rule bit_word_eqI) apply (simp add: bit_word_rotr_iff)
  done

lemma reduced_amount_nat:
  assumes "LENGTH('a::len) = 2 ^ k" "k < 32"
  shows "uint (rot mod (of_nat (digits TYPE('a word)) :: 32 word)) = int (unat rot mod LENGTH('a))"
proof -
  have "uint (rot mod (of_nat (digits TYPE('a word)) :: 32 word)) = uint rot mod 2 ^ k"
    by (rule rotate_mod_power_of_two(2) [OF assms])
  also have "\<dots> = int (unat rot) mod int (2 ^ k)"
    by (simp only: uint_nat of_nat_power of_nat_numeral)
  also have "\<dots> = int (unat rot mod 2 ^ k)" by (simp only: zmod_int)
  finally show ?thesis by (simp only: assms(1))
qed

lemma shifts_word_rot:
  fixes "value" :: "'a::len word" and q N :: "32 word"
  assumes len: "LENGTH('a) = 2 ^ k"
    and N: "uint N = int LENGTH('a)"
    and q: "q < N" "q \<noteq> 0" "\<not> q <s 0" "uint q = int n"
  shows "rotl_shifts value q N = Inr (word_rotl n value)"
    and "rotr_shifts value q N = Inr (word_rotr n value)"
proof -
  note a = shift_amounts [OF q(1,2,3)]
  from a(2) q(4) have n0: "0 < n" by simp
  from a(3) q(4) N have nL: "n < LENGTH('a)" by simp
  have s1: "sint q = int n" using a(1) q(4) by simp
  have "uint (N - q) = int LENGTH('a) - int n" using a(4) q(4) N by simp
  also have "\<dots> = int (LENGTH('a) - n)" using nL by (simp only: of_nat_diff less_imp_le)
  finally have s2: "uint (N - q) = int (LENGTH('a) - n)" .
  have Ln: "LENGTH('a) - n < LENGTH('a)" using n0 nL by simp
  show "rotl_shifts value q N = Inr (word_rotl n value)"
    unfolding rotl_shifts_def s1 s2 shl_defined [OF len nL] shr_defined [OF Ln]
    by (simp only: bit_or.simps shifts_eq_word_rotl [OF n0 nL])
  have "LENGTH('a) - (LENGTH('a) - n) = n" using nL by simp
  then have "drop_bit n value OR push_bit (LENGTH('a) - n) value = word_rotr n value"
    using shifts_eq_word_rotr [OF n0 nL, of "value"] by simp
  then show "rotr_shifts value q N = Inr (word_rotr n value)"
    unfolding rotr_shifts_def s1 s2 shl_defined [OF len Ln] shr_defined [OF nL]
    by (simp only: bit_or.simps)
qed

lemma rotl_rotr_word_rot:
  fixes "value" :: "'a::len word"
  assumes "LENGTH('a) = 2 ^ k" "k < 32"
  shows "rotl value rot = Inr (word_rotl (unat rot mod LENGTH('a)) value)"
    and "rotr value rot = Inr (word_rotr (unat rot mod LENGTH('a)) value)"
proof -
  define N :: "32 word" where "N = of_nat (digits TYPE('a word))"
  define q where "q = rot mod N"
  define n where "n = unat rot mod LENGTH('a)"
  have d: "uint N = int LENGTH('a)"
    unfolding N_def using digits_power_of_two(1) [OF assms] by (simp add: assms(1))
  have r4: "\<not> q <s 0" and r5: "q < N"
    unfolding q_def N_def by (rule rotate_mod_power_of_two [OF assms])+
  have un: "uint q = int n"
    unfolding q_def N_def n_def by (rule reduced_amount_nat [OF assms])
  have dir: "rotl value rot = (if q = 0 then Inr value else rotl_shifts value q N)"
    "rotr value rot = (if q = 0 then Inr value else rotr_shifts value q N)"
    unfolding q_def N_def by (rule rotl_rotr_direct [OF assms])+
  have "rotl value rot = Inr (word_rotl n value) \<and> rotr value rot = Inr (word_rotr n value)"
  proof (cases "q = 0")
    case True
    with un have "n = 0" by simp
    with True show ?thesis by (simp add: dir word_rot_0)
  next
    case False
    from shifts_word_rot [OF assms(1) d r5 False r4 un, of "value"] False
    show ?thesis by (simp add: dir)
  qed
  then show "rotl value rot = Inr (word_rotl (unat rot mod LENGTH('a)) value)"
    and "rotr value rot = Inr (word_rotr (unat rot mod LENGTH('a)) value)"
    by (simp_all add: n_def)
qed

text \<open>
  C4. For every unsigned type whose bit width \<open>N\<close> is a power of two, every value and
  every \<open>int\<close> amount, negative amounts and amounts of magnitude \<open>N\<close> or more
  included: rotating left and then right by the same amount gives the value back, and
  rotating left by 0 or by \<open>N\<close> leaves the value as it is. (\<open>k < 32\<close> says that \<open>N\<close>
  fits the \<open>unsigned\<close> constant that holds it.)
\<close>

theorem rotation_round_trip:
  fixes "value" :: "'a::len word"
  assumes "LENGTH('a) = 2 ^ k" "k < 32"
  shows "(\<exists>w. rotl value rot = Inr w \<and> rotr w rot = Inr value) \<and>
    rotl value 0 = Inr value \<and>
    rotl value (of_nat (digits TYPE('a word))) = Inr value"
proof -
  have "(2::nat) ^ k < 2 ^ 32" using assms(2) by (simp only: power_strict_increasing_iff)
  then have "unat (of_nat (2 ^ k) :: 32 word) = 2 ^ k"
    by (simp only: unat_of_nat) simp
  then have "unat (of_nat (digits TYPE('a word)) :: 32 word) mod LENGTH('a) = 0"
    by (simp only: digits_def assms(1)) simp
  then show ?thesis
    by (simp add: rotl_rotr_word_rot [OF assms] word_rot_0)
qed

theorem rotation_round_trip_witness:
  "LENGTH(8) = (2::nat) ^ 3 \<and> (3::nat) < 32 \<and>
   (\<exists>w. rotl (129 :: 8 word) (- 3) = Inr w \<and> rotr w (- 3) = Inr 129) \<and>
   rotl (129 :: 8 word) 0 = Inr 129 \<and>
   rotl (129 :: 8 word) (of_nat (digits TYPE(8 word))) = Inr 129"
proof -
  have len: "LENGTH(8) = (2::nat) ^ 3" and k: "(3::nat) < 32" by simp_all
  from rotation_round_trip [OF len k, of 129 "- 3"] len k show ?thesis by blast
qed

text \<open>
  C10. For every unsigned type whose bit width \<open>N\<close> is a power of two and every \<open>int\<close>
  amount, the amount right after \<open>rotate % N\<close> is not negative and is less than \<open>N\<close>,
  since the remainder is taken in \<open>unsigned\<close>; the test \<open>rotate < 0\<close> fails, and both
  functions return from the zero test or from their own shift expression. (\<open>k < 32\<close>
  says that \<open>N\<close> fits the \<open>unsigned\<close> constant that holds it.)
\<close>

theorem reduced_amount_never_negative:
  assumes "LENGTH('a::len) = 2 ^ k" "k < 32"
  shows "\<exists>q. rotate_mod rot (of_nat (digits TYPE('a word))) = Inr q \<and>
    0 \<le> sint q \<and> sint q < int (digits TYPE('a word)) \<and> \<not> q <s 0 \<and>
    (\<forall>value :: 'a word.
       rotl value rot =
         (if q = 0 then Inr value else rotl_shifts value q (of_nat (digits TYPE('a word)))) \<and>
       rotr value rot =
         (if q = 0 then Inr value else rotr_shifts value q (of_nat (digits TYPE('a word)))))"
proof -
  define N :: "32 word" where "N = of_nat (digits TYPE('a word))"
  note r = rotate_mod_power_of_two [OF assms, of rot, folded N_def]
  from r(4) have s: "sint (rot mod N) = uint (rot mod N)" by (simp add: sless0_iff sint_c_int)
  have "0 \<le> sint (rot mod N)" "sint (rot mod N) < int (digits TYPE('a word))"
    using r(3) unfolding s by (simp_all add: digits_def assms(1))
  with r(1,4) show ?thesis
    unfolding N_def [symmetric]
    using rotl_rotr_direct [OF assms, of _ rot, folded N_def] by auto
qed

theorem reduced_amount_never_negative_witness:
  "LENGTH(64) = (2::nat) ^ 6 \<and> (6::nat) < 32 \<and> sint (- 5 :: c_int) < 0 \<and>
   (\<exists>q. rotate_mod (- 5) (of_nat (digits TYPE(64 word))) = Inr q \<and>
    0 \<le> sint q \<and> sint q < int (digits TYPE(64 word)) \<and> \<not> q <s 0 \<and>
    (\<forall>value :: 64 word.
       rotl value (- 5) =
         (if q = 0 then Inr value else rotl_shifts value q (of_nat (digits TYPE(64 word)))) \<and>
       rotr value (- 5) =
         (if q = 0 then Inr value else rotr_shifts value q (of_nat (digits TYPE(64 word))))))"
proof -
  have len: "LENGTH(64) = (2::nat) ^ 6" and k: "(6::nat) < 32" by simp_all
  have neg: "sint (- 5 :: c_int) < 0" by simp
  from reduced_amount_never_negative [OF len k, of "- 5"] len k neg show ?thesis by blast
qed

text \<open>
  C5. The claim: in \<open>rotl\<close> and \<open>rotr\<close> the amount is first reduced modulo \<open>N\<close> with the
  sign-preserving remainder, so that a negative amount that is not a multiple of \<open>N\<close>
  stays negative after the reduction, and such an amount is handed to the opposite
  rotation with the negated amount, after at most one hop. Both functions have the
  branch \<open>if (rotate < 0)\<close> that does this, and \<open>rotr\<close> is declared ahead "so that rotl
  can use it"; but \<open>N\<close> is declared \<open>unsigned\<close>, so the remainder is the unsigned one
  and the branch is never reached. At the 32-bit type and the amount \<open>-1\<close>, which is
  negative and not a multiple of 32, the reduced amount is 31, which is not negative,
  and \<open>rotl\<close> and \<open>rotr\<close> return their own shift expressions.
\<close>

theorem negative_amount_not_delegated:
  "sint (- 1 :: c_int) < 0 \<and> \<not> int (digits TYPE(32 word)) dvd sint (- 1 :: c_int) \<and>
   rotate_mod (- 1) (of_nat (digits TYPE(32 word))) = Inr 31 \<and> \<not> (31 :: c_int) <s 0 \<and>
   rotl (1 :: 32 word) (- 1) = rotl_shifts 1 31 (of_nat (digits TYPE(32 word))) \<and>
   rotr (1 :: 32 word) (- 1) = rotr_shifts 1 31 (of_nat (digits TYPE(32 word)))"
  by (simp add: rotl.simps rotr.simps rotate_mod_def digits_def word_sless_alt)

text \<open>
  C8. In \<open>rotl\<close> and \<open>rotr\<close>, for every unsigned type, whenever the shift expression is
  evaluated (the reduction is defined and the reduced amount is neither zero nor
  negative), both shift amounts, the reduced amount and \<open>N\<close> minus it, lie strictly
  between 0 and \<open>N\<close>; no call of \<open>rotl\<close> or \<open>rotr\<close>, for any value and any amount,
  shifts by a negative amount or by the bit width or more.
\<close>

theorem rotation_shift_amounts_in_range:
  fixes "value" :: "'a::len word"
  shows "(\<forall>q. rotate_mod rot (of_nat (digits TYPE('a word))) = Inr q \<and> q \<noteq> 0 \<and> \<not> q <s 0 \<longrightarrow>
       0 < sint q \<and> sint q < int (digits TYPE('a word)) \<and>
       0 < uint (of_nat (digits TYPE('a word)) - q) \<and>
       uint (of_nat (digits TYPE('a word)) - q) < int (digits TYPE('a word))) \<and>
    rotl value rot \<noteq> Inl ShiftOutOfRange \<and>
    rotr value rot \<noteq> Inl ShiftOutOfRange"
proof -
  define N :: "32 word" where "N = of_nat (digits TYPE('a word))"
  have le: "uint N \<le> int (digits TYPE('a word))"
    unfolding N_def using uint_digits_le_length [where 'a = 'a] by (simp add: digits_def)
  have "0 < sint q \<and> sint q < int (digits TYPE('a word)) \<and>
      0 < uint (N - q) \<and> uint (N - q) < int (digits TYPE('a word))"
    if "rotate_mod rot N = Inr q" "q \<noteq> 0" "\<not> q <s 0" for q
  proof -
    from rotate_mod_Inr [OF that(1)] have "q < N" by blast
    from shift_amounts [OF this that(2,3)] le show ?thesis by simp
  qed
  then show ?thesis
    unfolding N_def [symmetric] using no_shift_out_of_range [of "value" rot] by blast
qed

theorem rotation_shift_amounts_in_range_witness:
  "rotate_mod (- 3) (of_nat (digits TYPE(16 word))) = Inr 13 \<and>
   (13 :: c_int) \<noteq> 0 \<and> \<not> (13 :: c_int) <s 0 \<and>
   0 < sint (13 :: c_int) \<and> sint (13 :: c_int) < int (digits TYPE(16 word)) \<and>
   0 < uint (of_nat (digits TYPE(16 word)) - 13 :: c_int) \<and>
   uint (of_nat (digits TYPE(16 word)) - 13 :: c_int) < int (digits TYPE(16 word)) \<and>
   rotl (1 :: 16 word) (- 3) \<noteq> Inl ShiftOutOfRange \<and>
   rotr (1 :: 16 word) (- 3) \<noteq> Inl ShiftOutOfRange"
proof -
  have h: "rotate_mod (- 3) (of_nat (digits TYPE(16 word))) = Inr 13 \<and>
      (13 :: c_int) \<noteq> 0 \<and> \<not> (13 :: c_int) <s 0"
    by (simp add: rotate_mod_def digits_def word_sless_alt)
  from rotation_shift_amounts_in_range [where 'a = 16, of "- 3" 1] h
  show ?thesis by blast
qed

section \<open>Floor and ceiling\<close>

lemma highest_set_bit_bounds:
  fixes w :: "'a::len word"
  assumes "highest_set_bit w h"
  shows "2 ^ h \<le> unat w" and "unat w < 2 * 2 ^ h"
proof -
  from assms have h: "bit w h" "\<And>i. h < i \<Longrightarrow> \<not> bit w i"
    by (simp_all add: highest_set_bit_def)
  have "i < Suc h" if "bit w i" for i
    using that h(2) [of i] by (cases "h < i") simp_all
  then have "take_bit (Suc h) w = w"
    by (intro bit_word_eqI) (auto simp: bit_take_bit_iff)
  then have "unat w = take_bit (Suc h) (unat w)"
    by (metis unsigned_take_bit_eq)
  also have "\<dots> = 2 ^ h * of_bool (bit (unat w) h) + take_bit h (unat w)"
    by (rule take_bit_Suc_from_most)
  also have "bit (unat w) h \<longleftrightarrow> bit w h" by (simp add: bit_unsigned_iff)
  finally have e: "unat w = 2 ^ h + take_bit h (unat w)" using h(1) by simp
  have "take_bit h (unat w) < 2 ^ h" by (rule take_bit_nat_less_exp)
  with e show "2 ^ h \<le> unat w" and "unat w < 2 * 2 ^ h" by linarith+
qed

lemma bit_width_highest:
  fixes w :: "'a::len word"
  assumes "LENGTH('a) = 2 ^ k" "w \<noteq> 0"
  shows "\<exists>h. highest_set_bit w h \<and> h < LENGTH('a) \<and> bit_width w = int h + 1"
proof -
  from countl_zero_highest [OF assms] obtain h
    where h: "highest_set_bit w h" "h < LENGTH('a)"
      "countl_zero w = int (LENGTH('a) - 1 - h)" by blast
  then have "bit_width w = int h + 1"
    by (simp add: bit_width_def digits_def of_nat_diff)
  with h show ?thesis by blast
qed

lemma unat_power_of_two:
  assumes "j < LENGTH('a::len)"
  shows "unat (2 ^ j :: 'a word) = 2 ^ j"
proof -
  have "(2::nat) ^ j < 2 ^ LENGTH('a)" using assms by (simp only: power_strict_increasing_iff)
  moreover have "unat (of_nat (2 ^ j) :: 'a word) = 2 ^ j mod 2 ^ LENGTH('a)" by (rule unat_of_nat)
  ultimately show ?thesis by simp
qed

lemma shl_one:
  assumes "LENGTH('a::len) = 2 ^ k" "j < LENGTH('a)"
  shows "shl (1 :: 'a word) (int j) = Inr (2 ^ j)"
  using shl_defined [OF assms, of 1] by simp

text \<open>
  C7. For every unsigned type whose bit width is a power of two: \<open>bit_floor 0\<close> is 0,
  and for every value above 0 \<open>bit_floor value\<close> is a power of two \<open>f\<close> with
  \<open>f \<le> value < 2 * f\<close>, the numbers compared as integers.
\<close>

theorem bit_floor_largest_power_of_two:
  fixes "value" :: "'a::len word"
  assumes "LENGTH('a) = 2 ^ k"
  shows "bit_floor (0 :: 'a word) = Inr 0 \<and>
    (value \<noteq> 0 \<longrightarrow>
      (\<exists>f j. bit_floor value = Inr f \<and> j < LENGTH('a) \<and> f = 2 ^ j \<and> unat f = 2 ^ j \<and>
         unat f \<le> unat value \<and> unat value < 2 * unat f))"
proof (cases "value = 0")
  case True
  then show ?thesis by (simp add: bit_floor_def)
next
  case False
  from bit_width_highest [OF assms False] obtain h
    where h: "highest_set_bit value h" "h < LENGTH('a)" "bit_width value = int h + 1" by blast
  have "bit_floor value = Inr (2 ^ h)"
    using False h(3) shl_one [OF assms h(2)] by (simp add: bit_floor_def)
  moreover note unat_power_of_two [OF h(2)] highest_set_bit_bounds [OF h(1)] h(2)
  ultimately show ?thesis by (auto simp: bit_floor_def)
qed

theorem bit_floor_largest_power_of_two_witness:
  "LENGTH(32) = (2::nat) ^ 5 \<and> (5 :: 32 word) \<noteq> 0 \<and>
   (\<exists>f j. bit_floor (5 :: 32 word) = Inr f \<and> j < LENGTH(32) \<and> f = 2 ^ j \<and> unat f = 2 ^ j \<and>
      unat f \<le> unat (5 :: 32 word) \<and> unat (5 :: 32 word) < 2 * unat f)"
proof -
  have len: "LENGTH(32) = (2::nat) ^ 5" by simp
  have nz: "(5 :: 32 word) \<noteq> 0" by simp
  from bit_floor_largest_power_of_two [OF len, of 5] len nz show ?thesis by blast
qed

text \<open>
  C6. For every unsigned type whose bit width \<open>N\<close> is a power of two: \<open>bit_ceil 0\<close> and
  \<open>bit_ceil 1\<close> are 1, and for every value above 1 that is at most \<open>2 ^ (N - 1)\<close>, the
  largest power of two of the type (the documented precondition), \<open>bit_ceil value\<close> is
  a power of two \<open>c\<close> with \<open>c / 2 < value \<le> c\<close>.
\<close>

theorem bit_ceil_smallest_power_of_two:
  fixes "value" :: "'a::len word"
  assumes "LENGTH('a) = 2 ^ k"
  shows "bit_ceil (0 :: 'a word) = Inr 1 \<and> bit_ceil (1 :: 'a word) = Inr 1 \<and>
    (1 < unat value \<and> unat value \<le> 2 ^ (LENGTH('a) - 1) \<longrightarrow>
      (\<exists>c j. bit_ceil value = Inr c \<and> j < LENGTH('a) \<and> c = 2 ^ j \<and> unat c = 2 ^ j \<and>
         unat c div 2 < unat value \<and> unat value \<le> unat c))"
proof -
  have small: "bit_ceil (0 :: 'a word) = Inr 1 \<and> bit_ceil (1 :: 'a word) = Inr 1"
    by (simp add: bit_ceil_def)
  have large: "\<exists>c j. bit_ceil value = Inr c \<and> j < LENGTH('a) \<and> c = 2 ^ j \<and> unat c = 2 ^ j \<and>
         unat c div 2 < unat value \<and> unat value \<le> unat c"
    if v: "1 < unat value" "unat value \<le> 2 ^ (LENGTH('a) - 1)"
  proof -
    from v(1) have "1 \<le> value" by (simp add: word_le_nat_alt)
    then have u: "unat (value - 1) = unat value - 1" by (simp add: unat_sub)
    with v(1) have nz: "value - 1 \<noteq> 0" by (metis unat_0 zero_less_diff less_irrefl)
    from bit_width_highest [OF assms nz] obtain h
      where h: "highest_set_bit (value - 1) h" "h < LENGTH('a)"
        "bit_width (value - 1) = int h + 1" by blast
    note b = highest_set_bit_bounds [OF h(1)]
    from b(1) u v have "(2::nat) ^ h < 2 ^ (LENGTH('a) - 1)" by linarith
    then have "h < LENGTH('a) - 1" by (simp only: power_strict_increasing_iff)
    then have j: "Suc h < LENGTH('a)" by simp
    have "bit_width (value - 1) = int (Suc h)" using h(3) by simp
    then have "shl (1 :: 'a word) (bit_width (value - 1)) = Inr (2 ^ Suc h)"
      using shl_one [OF assms j] by (simp only:)
    then have "bit_ceil value = Inr (2 ^ Suc h)"
      using v(1) by (simp add: bit_ceil_def)
    moreover have "unat (2 ^ Suc h :: 'a word) = 2 ^ Suc h" by (rule unat_power_of_two [OF j])
    moreover have "(2::nat) ^ Suc h div 2 < unat value" "unat value \<le> 2 ^ Suc h"
      using b u v(1) by simp_all
    ultimately show ?thesis using j by metis
  qed
  from small large show ?thesis by blast
qed

theorem bit_ceil_smallest_power_of_two_witness:
  "LENGTH(32) = (2::nat) ^ 5 \<and> 1 < unat (5 :: 32 word) \<and> unat (5 :: 32 word) \<le> 2 ^ (LENGTH(32) - 1) \<and>
   (\<exists>c j. bit_ceil (5 :: 32 word) = Inr c \<and> j < LENGTH(32) \<and> c = 2 ^ j \<and> unat c = 2 ^ j \<and>
      unat c div 2 < unat (5 :: 32 word) \<and> unat (5 :: 32 word) \<le> unat c)"
proof -
  have len: "LENGTH(32) = (2::nat) ^ 5" by simp
  have pre: "1 < unat (5 :: 32 word) \<and> unat (5 :: 32 word) \<le> 2 ^ (LENGTH(32) - 1)" by simp
  from bit_ceil_smallest_power_of_two [OF len, of 5] len pre show ?thesis by blast
qed

section \<open>First leading zero\<close>

lemma first_leading_zero_highest:
  fixes "value" :: "'a::len word"
  assumes "LENGTH('a) = 2 ^ k" "value \<noteq> max_value"
  shows "\<exists>h. h < LENGTH('a) \<and> first_leading_zero value = int (LENGTH('a) - h) \<and>
    \<not> bit value h \<and> (\<forall>i. h < i \<and> i < LENGTH('a) \<longrightarrow> bit value i)"
proof -
  from assms(2) have "NOT value \<noteq> 0"
    by (metis max_value_def not_eq_complement bit.compl_zero bit.double_compl)
  from countl_zero_highest [OF assms(1) this] obtain h
    where h: "highest_set_bit (NOT value) h" "h < LENGTH('a)"
      "countl_zero (NOT value) = int (LENGTH('a) - 1 - h)" by blast
  from h(1) have "\<not> bit value h" and "\<And>i. h < i \<Longrightarrow> i < LENGTH('a) \<Longrightarrow> bit value i"
    by (auto simp: highest_set_bit_def bit_not_iff)
  moreover have "first_leading_zero value = int (LENGTH('a) - h)"
    using assms(2) h(2,3) by (simp add: first_leading_zero_def countl_one_def)
  ultimately show ?thesis using h(2) by blast
qed

text \<open>
  C9. For every unsigned type whose bit width \<open>N\<close> is a power of two:
  \<open>first_leading_zero\<close> is 0 at the maximum of the type, that is when the value has no
  zero bit, and 1 at 0; \<open>first_leading_one 0\<close> is 0; and for every other value
  \<open>first_leading_zero value\<close> is the position \<open>p\<close>, counted from 1 at the most significant
  bit, of the first zero bit: bit \<open>N - p\<close> is zero and every bit above it is one.
\<close>

theorem first_leading_zero_position:
  fixes "value" :: "'a::len word"
  assumes "LENGTH('a) = 2 ^ k"
  shows "first_leading_zero (max_value :: 'a word) = 0 \<and>
    first_leading_zero (0 :: 'a word) = 1 \<and>
    first_leading_one (0 :: 'a word) = 0 \<and>
    ((\<forall>i < digits TYPE('a word). bit value i) \<longrightarrow> first_leading_zero value = 0) \<and>
    (value \<noteq> max_value \<longrightarrow>
       1 \<le> first_leading_zero value \<and>
       first_leading_zero value \<le> int (digits TYPE('a word)) \<and>
       \<not> bit value (digits TYPE('a word) - nat (first_leading_zero value)) \<and>
       (\<forall>i. digits TYPE('a word) - nat (first_leading_zero value) < i \<and>
            i < digits TYPE('a word) \<longrightarrow> bit value i))"
proof -
  have m: "first_leading_zero (max_value :: 'a word) = 0"
    by (simp add: first_leading_zero_def)
  have one: "first_leading_one (0 :: 'a word) = 0"
    by (simp add: first_leading_one_def first_leading_zero_def max_value_def)
  have gen: "1 \<le> first_leading_zero v \<and>
       first_leading_zero v \<le> int (digits TYPE('a word)) \<and>
       \<not> bit v (digits TYPE('a word) - nat (first_leading_zero v)) \<and>
       (\<forall>i. digits TYPE('a word) - nat (first_leading_zero v) < i \<and>
            i < digits TYPE('a word) \<longrightarrow> bit v i)"
    if "v \<noteq> max_value" for v :: "'a word"
  proof -
    from first_leading_zero_highest [OF assms that] obtain h
      where h: "h < LENGTH('a)" "first_leading_zero v = int (LENGTH('a) - h)"
        "\<not> bit v h" "\<forall>i. h < i \<and> i < LENGTH('a) \<longrightarrow> bit v i" by blast
    from h(1) have "LENGTH('a) - nat (int (LENGTH('a) - h)) = h" by simp
    with h show ?thesis by (simp add: digits_def)
  qed
  have zero: "first_leading_zero (0 :: 'a word) = 1"
  proof -
    have nm: "(0 :: 'a word) \<noteq> max_value" by (simp add: max_value_def)
    from first_leading_zero_highest [OF assms nm] obtain h
      where h: "h < LENGTH('a)" "first_leading_zero (0 :: 'a word) = int (LENGTH('a) - h)"
        "\<forall>i. h < i \<and> i < LENGTH('a) \<longrightarrow> bit (0 :: 'a word) i" by blast
    have "h = LENGTH('a) - 1"
    proof (rule ccontr)
      assume "h \<noteq> LENGTH('a) - 1"
      with h(1) have "h < LENGTH('a) - 1 \<and> LENGTH('a) - 1 < LENGTH('a)" by simp
      with h(3) have "bit (0 :: 'a word) (LENGTH('a) - 1)" by blast
      then show False by simp
    qed
    with h(1) have "LENGTH('a) - h = 1" by linarith
    with h(2) show ?thesis by simp
  qed
  have ones: "first_leading_zero value = 0" if "\<forall>i < digits TYPE('a word). bit value i"
  proof -
    have "value = - 1"
      by (rule bit_word_eqI) (use that in \<open>simp add: digits_def\<close>)
    then show ?thesis by (simp add: first_leading_zero_def max_value_def)
  qed
  from m zero one ones gen [of "value"] show ?thesis by blast
qed

theorem first_leading_zero_position_witness:
  "LENGTH(8) = (2::nat) ^ 3 \<and> (200 :: 8 word) \<noteq> max_value \<and>
   first_leading_zero (max_value :: 8 word) = 0 \<and>
   first_leading_zero (0 :: 8 word) = 1 \<and>
   first_leading_one (0 :: 8 word) = 0 \<and>
   1 \<le> first_leading_zero (200 :: 8 word) \<and>
   first_leading_zero (200 :: 8 word) \<le> int (digits TYPE(8 word)) \<and>
   \<not> bit (200 :: 8 word) (digits TYPE(8 word) - nat (first_leading_zero (200 :: 8 word)))"
proof -
  have len: "LENGTH(8) = (2::nat) ^ 3" by simp
  have nm: "(200 :: 8 word) \<noteq> max_value" by (simp add: max_value_def)
  from first_leading_zero_position [OF len, of 200] len nm show ?thesis by blast
qed

end
